theory Spec2Isabelle
  imports Main
begin

section \<open>Go slices over a backing array\<close>

text \<open>
  The package works on Go slices. A slice is a header of three words: a pointer into a
  backing array, a length and a capacity. The backing array is modelled as a list of cells
  and the pointer as an offset \<open>off\<close> into it, so that a sub-slice of \<open>s\<close> is a second
  header over the same cells and a write through one header is seen through the other.
  Go's \<open>int\<close> is modelled as \<open>int\<close>. The package adds and subtracts indices, counts and
  lengths only; each result goes to a slice expression or an index expression, which
  checks it against the length or the capacity, and a 64-bit sum or difference wraps
  around only for arguments at which that check fails for the exact value as well.
\<close>

datatype panic = IndexOutOfRange | SliceBoundsOutOfRange

record slice =
  off :: nat
  len :: nat
  cap :: nat

text \<open>The invariant the Go runtime keeps for every slice header over the array \<open>a\<close>.\<close>

definition wf_slice :: "'a list \<Rightarrow> slice \<Rightarrow> bool" where
  "wf_slice a s \<longleftrightarrow> len s \<le> cap s \<and> off s + cap s \<le> length a"

text \<open>The logical contents of a slice: the \<open>len s\<close> cells from its pointer on.\<close>

definition contents :: "'a list \<Rightarrow> slice \<Rightarrow> 'a list" where
  "contents a s = take (len s) (drop (off s) a)"

subsection \<open>The language's own operations\<close>

text \<open>The index expression \<open>s[i]\<close>, read and written: \<open>i\<close> is checked against \<open>len(s)\<close>.\<close>

definition index_read :: "'a list \<Rightarrow> slice \<Rightarrow> int \<Rightarrow> panic + 'a" where
  "index_read a s i =
     (if 0 \<le> i \<and> i < int (len s) then Inr (a ! (off s + nat i)) else Inl IndexOutOfRange)"

definition index_write :: "'a list \<Rightarrow> slice \<Rightarrow> int \<Rightarrow> 'a \<Rightarrow> panic + 'a list" where
  "index_write a s i v =
     (if 0 \<le> i \<and> i < int (len s) then Inr (a[off s + nat i := v]) else Inl IndexOutOfRange)"

text \<open>
  The slice expression \<open>s[lo:hi]\<close> panics unless \<open>0 \<le> lo \<le> hi \<le> cap(s)\<close>. With \<open>hi\<close>
  left out it is \<open>len(s)\<close>, with \<open>lo\<close> left out it is 0.
\<close>

definition slice_expr :: "slice \<Rightarrow> int \<Rightarrow> int \<Rightarrow> panic + slice" where
  "slice_expr s lo hi =
     (if 0 \<le> lo \<and> lo \<le> hi \<and> hi \<le> int (cap s)
      then Inr \<lparr>off = off s + nat lo, len = nat (hi - lo), cap = cap s - nat lo\<rparr>
      else Inl SliceBoundsOutOfRange)"

definition slice_from :: "slice \<Rightarrow> int \<Rightarrow> panic + slice" where
  "slice_from s lo = slice_expr s lo (int (len s))"

definition slice_upto :: "slice \<Rightarrow> int \<Rightarrow> panic + slice" where
  "slice_upto s hi = slice_expr s 0 hi"

text \<open>Storing a run of values into consecutive cells, from cell \<open>p\<close> on.\<close>

primrec store :: "'a list \<Rightarrow> nat \<Rightarrow> 'a list \<Rightarrow> 'a list" where
  "store a p [] = a"
| "store a p (v # vs) = store (a[p := v]) (Suc p) vs"

text \<open>
  The builtin \<open>copy(dst, src)\<close> moves \<open>min(len(dst), len(src))\<close> elements and is correct
  for overlapping operands: the source values are those before the call.
  \<open>copy_builtin\<close> is the call with both operands over the array \<open>a\<close>; \<open>copy_vals\<close> is the
  call whose source is the variadic parameter.
\<close>

definition copy_builtin :: "'a list \<Rightarrow> slice \<Rightarrow> slice \<Rightarrow> 'a list" where
  "copy_builtin a dst src =
     store a (off dst) (take (min (len dst) (len src)) (contents a src))"

definition copy_vals :: "'a list \<Rightarrow> slice \<Rightarrow> 'a list \<Rightarrow> 'a list" where
  "copy_vals a dst vals = store a (off dst) (take (min (len dst) (length vals)) vals)"

text \<open>
  The builtin \<open>append(s, vals...)\<close> writes behind the slice when the capacity suffices and
  moves the elements to a fresh array otherwise. How much room the fresh array has beyond
  the elements is the runtime's choice, and its unused cells hold the zero value of the
  element type: both are parameters of the model.
\<close>

record 'a runtime =
  zero :: 'a
  slack :: "nat \<Rightarrow> nat \<Rightarrow> nat"

definition append_builtin :: "'a runtime \<Rightarrow> 'a list \<Rightarrow> slice \<Rightarrow> 'a list \<Rightarrow> 'a list \<times> slice" where
  "append_builtin rt a s vals =
     (let n = len s + length vals in
      if n \<le> cap s then (store a (off s + len s) vals, s\<lparr>len := n\<rparr>)
      else (let extra = slack rt (cap s) n in
            (contents a s @ vals @ replicate extra (zero rt),
             \<lparr>off = 0, len = n, cap = n + extra\<rparr>)))"

section \<open>The package\<close>

text \<open>
  A function that writes takes the backing array and returns it updated; a function that
  returns a slice returns the header together with the array the header points into,
  which is a fresh array when \<open>append\<close> had to move the elements. A variadic parameter
  \<open>vals\<close> is the list of the values passed: the argument slice built at the call, whose
  capacity is its length and whose cells are its own.
\<close>

definition Get :: "'a list \<Rightarrow> slice \<Rightarrow> int \<Rightarrow> panic + 'a" where
  "Get a s idx =
     (let idx = (if idx < 0 then idx + int (len s) else idx) in index_read a s idx)"

definition Put :: "'a list \<Rightarrow> slice \<Rightarrow> int \<Rightarrow> 'a \<Rightarrow> panic + 'a list" where
  "Put a s idx val =
     (let idx = (if idx < 0 then idx + int (len s) else idx) in index_write a s idx val)"

definition Append :: "'a runtime \<Rightarrow> 'a list \<Rightarrow> slice \<Rightarrow> 'a list \<Rightarrow> 'a list \<times> slice" where
  "Append rt a s vals = append_builtin rt a s vals"

definition insert_go ::
  "'a runtime \<Rightarrow> 'a list \<Rightarrow> slice \<Rightarrow> int \<Rightarrow> 'a list \<Rightarrow> panic + ('a list \<times> slice)" where
  "insert_go rt a s idx vals =
     (case append_builtin rt a s vals of (a1, s1) \<Rightarrow>
      (case slice_from s1 (idx + int (length vals)) of Inl e \<Rightarrow> Inl e | Inr dst \<Rightarrow>
      (case slice_from s1 idx of Inl e \<Rightarrow> Inl e | Inr src \<Rightarrow>
      (let a2 = copy_builtin a1 dst src in
      (case slice_from s1 idx of Inl e \<Rightarrow> Inl e | Inr dst2 \<Rightarrow>
       Inr (copy_vals a2 dst2 vals, s1))))))"

definition Insert ::
  "'a runtime \<Rightarrow> 'a list \<Rightarrow> slice \<Rightarrow> int \<Rightarrow> 'a list \<Rightarrow> panic + ('a list \<times> slice)" where
  "Insert rt a s idx vals =
     (let idx = (if idx < 0 then idx + int (len s) else idx) in insert_go rt a s idx vals)"

definition removeN :: "'a list \<Rightarrow> slice \<Rightarrow> int \<Rightarrow> int \<Rightarrow> panic + ('a list \<times> slice)" where
  "removeN a s idx n =
     (case slice_from s idx of Inl e \<Rightarrow> Inl e | Inr dst \<Rightarrow>
      (case slice_from s (idx + n) of Inl e \<Rightarrow> Inl e | Inr src \<Rightarrow>
      (let a1 = copy_builtin a dst src;
           newlen = int (len s) - n in
      (case slice_upto s newlen of Inl e \<Rightarrow> Inl e | Inr s1 \<Rightarrow> Inr (a1, s1)))))"

definition RemoveN :: "'a list \<Rightarrow> slice \<Rightarrow> int \<Rightarrow> int \<Rightarrow> panic + ('a list \<times> slice)" where
  "RemoveN a s idx n =
     (let idx = (if idx < 0 then idx + int (len s) else idx) in removeN a s idx n)"

definition RemoveTo :: "'a list \<Rightarrow> slice \<Rightarrow> int \<Rightarrow> int \<Rightarrow> panic + ('a list \<times> slice)" where
  "RemoveTo a s from to =
     (let from = (if from < 0 then from + int (len s) else from);
          to = (if to < 0 then to + int (len s) else if to = 0 then int (len s) else to)
      in removeN a s from (to - from))"

text \<open>
  \<open>vals[:delta]\<close> and \<open>vals[delta:]\<close> on the variadic parameter, whose capacity is its
  length.
\<close>

definition vals_upto :: "'a list \<Rightarrow> int \<Rightarrow> panic + 'a list" where
  "vals_upto vals hi =
     (if 0 \<le> hi \<and> hi \<le> int (length vals) then Inr (take (nat hi) vals)
      else Inl SliceBoundsOutOfRange)"

definition vals_from :: "'a list \<Rightarrow> int \<Rightarrow> panic + 'a list" where
  "vals_from vals lo =
     (if 0 \<le> lo \<and> lo \<le> int (length vals) then Inr (drop (nat lo) vals)
      else Inl SliceBoundsOutOfRange)"

definition replaceN ::
  "'a runtime \<Rightarrow> 'a list \<Rightarrow> slice \<Rightarrow> int \<Rightarrow> int \<Rightarrow> 'a list \<Rightarrow> panic + ('a list \<times> slice)" where
  "replaceN rt a s idx n vals =
     (case
        (if n > int (length vals) then
           (case removeN a s idx (n - int (length vals)) of Inl e \<Rightarrow> Inl e
            | Inr (a1, s1) \<Rightarrow> Inr (a1, s1, idx, vals))
         else if n < int (length vals) then
           (let delta = int (length vals) - n in
            (case vals_upto vals delta of Inl e \<Rightarrow> Inl e | Inr front \<Rightarrow>
            (case insert_go rt a s idx front of Inl e \<Rightarrow> Inl e | Inr (a1, s1) \<Rightarrow>
            (case vals_from vals delta of Inl e \<Rightarrow> Inl e | Inr rest \<Rightarrow>
             Inr (a1, s1, idx + delta, rest)))))
         else Inr (a, s, idx, vals))
      of Inl e \<Rightarrow> Inl e
       | Inr (a1, s1, idx1, vals1) \<Rightarrow>
           (case slice_from s1 idx1 of Inl e \<Rightarrow> Inl e
            | Inr dst \<Rightarrow> Inr (copy_vals a1 dst vals1, s1)))"

definition ReplaceN ::
  "'a runtime \<Rightarrow> 'a list \<Rightarrow> slice \<Rightarrow> int \<Rightarrow> int \<Rightarrow> 'a list \<Rightarrow> panic + ('a list \<times> slice)" where
  "ReplaceN rt a s idx n vals =
     (let idx = (if idx < 0 then idx + int (len s) else idx) in replaceN rt a s idx n vals)"

definition ReplaceTo ::
  "'a runtime \<Rightarrow> 'a list \<Rightarrow> slice \<Rightarrow> int \<Rightarrow> int \<Rightarrow> 'a list \<Rightarrow> panic + ('a list \<times> slice)" where
  "ReplaceTo rt a s from to vals =
     (let from = (if from < 0 then from + int (len s) else from);
          to = (if to < 0 then to + int (len s) else if to = 0 then int (len s) else to)
      in replaceN rt a s from (to - from) vals)"

text \<open>
  The range views compute a header and touch no cell: the array is returned as it was
  passed, and the header \<open>s\<close>, passed by value, stays with the caller.
\<close>

definition Prefix :: "'a list \<Rightarrow> slice \<Rightarrow> int \<Rightarrow> panic + ('a list \<times> slice)" where
  "Prefix a s idx =
     (let idx = (if idx < 0 then idx + int (len s) else idx) in
      (case slice_upto s idx of Inl e \<Rightarrow> Inl e | Inr v \<Rightarrow> Inr (a, v)))"

definition Suffix :: "'a list \<Rightarrow> slice \<Rightarrow> int \<Rightarrow> panic + ('a list \<times> slice)" where
  "Suffix a s idx =
     (let idx = (if idx < 0 then idx + int (len s) else idx) in
      (case slice_from s idx of Inl e \<Rightarrow> Inl e | Inr v \<Rightarrow> Inr (a, v)))"

definition SliceN :: "'a list \<Rightarrow> slice \<Rightarrow> int \<Rightarrow> int \<Rightarrow> panic + ('a list \<times> slice)" where
  "SliceN a s idx n =
     (let idx = (if idx < 0 then idx + int (len s) else idx) in
      (case slice_expr s idx (idx + n) of Inl e \<Rightarrow> Inl e | Inr v \<Rightarrow> Inr (a, v)))"

definition SliceTo :: "'a list \<Rightarrow> slice \<Rightarrow> int \<Rightarrow> int \<Rightarrow> panic + ('a list \<times> slice)" where
  "SliceTo a s from to =
     (let from = (if from < 0 then from + int (len s) else from);
          to = (if to < 0 then to + int (len s) else if to = 0 then int (len s) else to)
      in (case slice_expr s from to of Inl e \<Rightarrow> Inl e | Inr v \<Rightarrow> Inr (a, v)))"

text \<open>
  The statements that open the exported functions, named so that the theorems can speak of
  the normalized index: a negative index counts from the end, and an end-point \<open>to\<close> of 0
  stands for the length.
\<close>

definition normalize_idx :: "slice \<Rightarrow> int \<Rightarrow> int" where
  "normalize_idx s idx = (if idx < 0 then idx + int (len s) else idx)"

definition normalize_to :: "slice \<Rightarrow> int \<Rightarrow> int" where
  "normalize_to s to = (if to < 0 then to + int (len s) else if to = 0 then int (len s) else to)"

text \<open>A runtime for the worked examples: fresh arrays are twice as long as needed.\<close>

definition example_rt :: "char runtime" where
  "example_rt = \<lparr>zero = CHR ''0'', slack = (\<lambda>c n. n)\<rparr>"

section \<open>Cells, headers and contents\<close>

lemma wf_len_cap: "wf_slice a s \<Longrightarrow> len s \<le> cap s"
  by (simp add: wf_slice_def)

lemma wf_cap_array: "wf_slice a s \<Longrightarrow> off s + cap s \<le> length a"
  by (simp add: wf_slice_def)

lemma length_store [simp]: "length (store a p vs) = length a"
  by (induction vs arbitrary: a p) simp_all

lemma nth_store:
  "j < length a \<Longrightarrow>
   store a p vs ! j = (if p \<le> j \<and> j < p + length vs then vs ! (j - p) else a ! j)"
proof (induction vs arbitrary: a p)
  case Nil
  then show ?case by auto
next
  case (Cons v vs)
  then show ?case
    by (auto simp: nth_list_update Suc_diff_le nth_Cons')
qed

lemma length_contents: "wf_slice a s \<Longrightarrow> length (contents a s) = len s"
  unfolding wf_slice_def contents_def by auto

lemma nth_contents: "wf_slice a s \<Longrightarrow> j < len s \<Longrightarrow> contents a s ! j = a ! (off s + j)"
  unfolding wf_slice_def contents_def by simp

lemma wf_store: "wf_slice a s \<Longrightarrow> wf_slice (store a p vs) s"
  by (simp add: wf_slice_def)

lemma contents_store:
  assumes "wf_slice a s" and "p + length vs \<le> len s"
  shows "contents (store a (off s + p) vs) s
           = take p (contents a s) @ vs @ drop (p + length vs) (contents a s)"
proof (rule nth_equalityI)
  show "length (contents (store a (off s + p) vs) s)
          = length (take p (contents a s) @ vs @ drop (p + length vs) (contents a s))"
    using assms by (simp add: length_contents wf_store)
next
  fix j assume "j < length (contents (store a (off s + p) vs) s)"
  then have j: "j < len s"
    using assms by (simp add: length_contents wf_store)
  then have "off s + j < length a"
    using assms(1) unfolding wf_slice_def by arith
  then have "contents (store a (off s + p) vs) s ! j
          = (if p \<le> j \<and> j < p + length vs then vs ! (j - p) else a ! (off s + j))"
    using j assms by (simp add: nth_contents wf_store nth_store)
  also have "\<dots> = (take p (contents a s) @ vs @ drop (p + length vs) (contents a s)) ! j"
    using j assms by (auto simp: nth_append length_contents nth_contents)
  finally show "contents (store a (off s + p) vs) s ! j
          = (take p (contents a s) @ vs @ drop (p + length vs) (contents a s)) ! j" .
qed

lemma slice_from_nat:
  "i \<le> len s \<Longrightarrow> len s \<le> cap s \<Longrightarrow>
   slice_from s (int i) = Inr \<lparr>off = off s + i, len = len s - i, cap = cap s - i\<rparr>"
  by (simp add: slice_from_def slice_expr_def nat_diff_distrib')

lemma slice_upto_nat:
  "m \<le> cap s \<Longrightarrow> slice_upto s (int m) = Inr (s\<lparr>len := m\<rparr>)"
  by (simp add: slice_upto_def slice_expr_def)

lemma contents_drop:
  "wf_slice a s \<Longrightarrow> i \<le> len s \<Longrightarrow>
   contents a \<lparr>off = off s + i, len = len s - i, cap = cap s - i\<rparr> = drop i (contents a s)"
  by (simp add: contents_def drop_take add.commute)

lemma contents_take:
  "m \<le> len s \<Longrightarrow> contents a (s\<lparr>len := m\<rparr>) = take m (contents a s)"
  by (simp add: contents_def min_def)

lemma append_builtin_spec:
  assumes "wf_slice a s" and "append_builtin rt a s vals = (a1, s1)"
  shows "wf_slice a1 s1 \<and> len s1 = len s + length vals \<and> contents a1 s1 = contents a s @ vals"
proof (cases "len s + length vals \<le> cap s")
  case True
  then have a1: "a1 = store a (off s + len s) vals" and s1: "s1 = s\<lparr>len := len s + length vals\<rparr>"
    using assms(2) by (simp_all add: append_builtin_def Let_def)
  have wf': "wf_slice a (s\<lparr>len := len s + length vals\<rparr>)"
    using assms(1) True by (simp add: wf_slice_def)
  have "contents a1 s1 = take (len s) (contents a s1) @ vals @ drop (len s + length vals) (contents a s1)"
    unfolding a1 s1 using contents_store [OF wf', of "len s" vals] by simp
  moreover have "take (len s) (contents a s1) = contents a s"
    unfolding s1 by (simp add: contents_def min_def)
  moreover have "drop (len s + length vals) (contents a s1) = []"
    unfolding s1 by (simp add: contents_def)
  ultimately show ?thesis
    using wf' by (simp add: a1 s1 wf_slice_def)
next
  case False
  then have a1: "a1 = contents a s @ vals @ replicate (slack rt (cap s) (len s + length vals)) (zero rt)"
    and s1: "s1 = \<lparr>off = 0, len = len s + length vals,
                   cap = len s + length vals + slack rt (cap s) (len s + length vals)\<rparr>"
    using assms(2) by (simp_all add: append_builtin_def Let_def)
  have L: "length (contents a s) = len s"
    using assms(1) by (rule length_contents)
  have "contents a1 s1 = take (len s1) a1"
    by (simp add: contents_def s1)
  then show ?thesis
    by (simp add: a1 s1 wf_slice_def L)
qed

lemma insert_go_spec:
  assumes "wf_slice a s" and "i \<le> len s"
  shows "\<exists>a' s'. insert_go rt a s (int i) vals = Inr (a', s') \<and> wf_slice a' s'
           \<and> len s' = len s + length vals
           \<and> contents a' s' = take i (contents a s) @ vals @ drop i (contents a s)"
proof -
  obtain a1 s1 where ap: "append_builtin rt a s vals = (a1, s1)"
    by (cases "append_builtin rt a s vals")
  from append_builtin_spec [OF assms(1) ap]
  have wf1: "wf_slice a1 s1" and len1: "len s1 = len s + length vals"
    and c1: "contents a1 s1 = contents a s @ vals"
    by simp_all
  have L: "length (contents a s) = len s"
    using assms(1) by (rule length_contents)
  let ?k = "length vals"
  let ?dst = "\<lparr>off = off s1 + (i + ?k), len = len s - i, cap = cap s1 - (i + ?k)\<rparr>"
  let ?src = "\<lparr>off = off s1 + i, len = len s + ?k - i, cap = cap s1 - i\<rparr>"
  have dst: "slice_from s1 (int i + int ?k) = Inr ?dst"
    using slice_from_nat [of "i + ?k" s1] assms(2) len1 wf_len_cap [OF wf1] by simp
  have src: "slice_from s1 (int i) = Inr ?src"
    using slice_from_nat [of i s1] assms(2) len1 wf_len_cap [OF wf1] by simp
  have csrc: "contents a1 ?src = drop i (contents a s) @ vals"
    using contents_drop [OF wf1, of i] assms(2) len1 c1 L by simp
  let ?a2 = "copy_builtin a1 ?dst ?src"
  have a2: "?a2 = store a1 (off s1 + (i + ?k)) (drop i (contents a s))"
    using assms(2) len1 L by (simp add: copy_builtin_def csrc min_def)
  have wf2: "wf_slice ?a2 s1"
    unfolding a2 using wf1 by (rule wf_store)
  have c2: "contents ?a2 s1 = take i (contents a s) @ take ?k (drop i (contents a s) @ vals) @ drop i (contents a s)"
    unfolding a2 using contents_store [OF wf1, of "i + ?k" "drop i (contents a s)"] assms(2) len1 L c1
    by (simp add: take_add add.commute)
  let ?a3 = "copy_vals ?a2 ?src vals"
  have a3: "?a3 = store ?a2 (off s1 + i) vals"
    using assms(2) len1 by (simp add: copy_vals_def min_def)
  have c3: "contents ?a3 s1 = take i (contents a s) @ vals @ drop i (contents a s)"
    unfolding a3 using contents_store [OF wf2, of i vals] assms(2) len1 L c2
    by (simp add: min_def)
  have "insert_go rt a s (int i) vals = Inr (?a3, s1)"
    by (simp add: insert_go_def ap dst src Let_def)
  moreover have "wf_slice ?a3 s1"
    unfolding a3 using wf2 by (rule wf_store)
  ultimately show ?thesis
    using len1 c3 by blast
qed


lemma take_exact: "length xs = m \<Longrightarrow> take m (xs @ ys) = xs"
  by simp

lemma splice_mid:
  "length xs = p \<Longrightarrow> take p (xs @ zs) @ vs @ drop (p + j) (xs @ zs) = xs @ vs @ drop j zs"
  by simp

lemma removeN_spec:
  assumes "wf_slice a s" and "i + n \<le> len s"
  shows "removeN a s (int i) (int n)
           = Inr (store a (off s + i) (drop (i + n) (contents a s)), s\<lparr>len := len s - n\<rparr>)"
    and "contents (store a (off s + i) (drop (i + n) (contents a s))) (s\<lparr>len := len s - n\<rparr>)
           = take i (contents a s) @ drop (i + n) (contents a s)"
proof -
  have L: "length (contents a s) = len s"
    using assms(1) by (rule length_contents)
  have lc: "len s \<le> cap s"
    using assms(1) by (rule wf_len_cap)
  let ?dst = "\<lparr>off = off s + i, len = len s - i, cap = cap s - i\<rparr>"
  let ?src = "\<lparr>off = off s + (i + n), len = len s - (i + n), cap = cap s - (i + n)\<rparr>"
  let ?a1 = "store a (off s + i) (drop (i + n) (contents a s))"
  have dst: "slice_from s (int i) = Inr ?dst"
    using slice_from_nat [of i s] assms(2) lc by simp
  have src: "slice_from s (int i + int n) = Inr ?src"
    using slice_from_nat [of "i + n" s] assms(2) lc by simp
  have csrc: "contents a ?src = drop (i + n) (contents a s)"
    using contents_drop [OF assms(1), of "i + n"] assms(2) by simp
  have a1: "copy_builtin a ?dst ?src = ?a1"
    using L by (simp add: copy_builtin_def csrc min_def)
  have up: "slice_upto s (int (len s) - int n) = Inr (s\<lparr>len := len s - n\<rparr>)"
    using slice_upto_nat [of "len s - n" s] assms(2) lc by simp
  show "removeN a s (int i) (int n) = Inr (?a1, s\<lparr>len := len s - n\<rparr>)"
    by (simp add: removeN_def dst src a1 up Let_def)
  have c: "contents ?a1 s = (take i (contents a s) @ drop (i + n) (contents a s))
                           @ drop (len s - n) (contents a s)"
    using contents_store [OF assms(1), of i "drop (i + n) (contents a s)"] assms(2) L
    by simp
  have "length (take i (contents a s) @ drop (i + n) (contents a s)) = len s - n"
    using assms(2) L by simp
  then have "take (len s - n) (contents ?a1 s)
               = take i (contents a s) @ drop (i + n) (contents a s)"
    unfolding c by (rule take_exact)
  then show "contents ?a1 (s\<lparr>len := len s - n\<rparr>)
               = take i (contents a s) @ drop (i + n) (contents a s)"
    by (simp add: contents_take)
qed

lemma wf_shrink: "wf_slice a s \<Longrightarrow> m \<le> len s \<Longrightarrow> wf_slice a (s\<lparr>len := m\<rparr>)"
  by (simp add: wf_slice_def)

lemma copy_vals_spec:
  assumes "wf_slice a s" and "i + length vals \<le> len s"
  shows "\<exists>a'. (case slice_from s (int i) of Inl e \<Rightarrow> Inl e
                | Inr dst \<Rightarrow> Inr (copy_vals a dst vals, s)) = Inr (a', s)
           \<and> wf_slice a' s
           \<and> contents a' s = take i (contents a s) @ vals @ drop (i + length vals) (contents a s)"
proof -
  have lc: "len s \<le> cap s"
    using assms(1) by (rule wf_len_cap)
  let ?dst = "\<lparr>off = off s + i, len = len s - i, cap = cap s - i\<rparr>"
  have dst: "slice_from s (int i) = Inr ?dst"
    using slice_from_nat [of i s] assms(2) lc by simp
  have cv: "copy_vals a ?dst vals = store a (off s + i) vals"
    using assms(2) by (simp add: copy_vals_def min_def)
  show ?thesis
    using contents_store [OF assms, of ] wf_store [OF assms(1), of "off s + i" vals]
    by (simp add: dst cv)
qed


lemma replaceN_spec:
  assumes "wf_slice a s" and "i + n \<le> len s"
  shows "\<exists>a' s'. replaceN rt a s (int i) (int n) vals = Inr (a', s') \<and> wf_slice a' s'
           \<and> len s' = len s - n + length vals
           \<and> contents a' s' = take i (contents a s) @ vals @ drop (i + n) (contents a s)"
proof -
  let ?k = "length vals"
  let ?S = "contents a s"
  have L: "length ?S = len s"
    using assms(1) by (rule length_contents)
  consider (shrink) "?k < n" | (grow) "n < ?k" | (same) "n = ?k"
    by arith
  then show ?thesis
  proof cases
    case shrink
    let ?d = "n - ?k"
    define a1 where "a1 = store a (off s + i) (drop (i + ?d) ?S)"
    define s1 where "s1 = s\<lparr>len := len s - ?d\<rparr>"
    have le: "i + ?d \<le> len s"
      using assms(2) by arith
    have d: "int n - int ?k = int ?d"
      using shrink by simp
    have r: "removeN a s (int i) (int n - int ?k) = Inr (a1, s1)"
      unfolding d a1_def s1_def using assms(1) le by (rule removeN_spec(1))
    have c1: "contents a1 s1 = take i ?S @ drop (i + ?d) ?S"
      unfolding a1_def s1_def using assms(1) le by (rule removeN_spec(2))
    have wf1: "wf_slice a1 s1"
      unfolding a1_def s1_def using assms(1) by (intro wf_store wf_shrink) simp_all
    have len1: "len s1 = len s - ?d"
      by (simp add: s1_def)
    have fit: "i + ?k \<le> len s1"
      using assms(2) shrink len1 by simp
    from copy_vals_spec [OF wf1 fit]
    obtain a' where fin: "(case slice_from s1 (int i) of Inl e \<Rightarrow> Inl e
                           | Inr dst \<Rightarrow> Inr (copy_vals a1 dst vals, s1)) = Inr (a', s1)"
      and wf': "wf_slice a' s1"
      and c': "contents a' s1 = take i (contents a1 s1) @ vals @ drop (i + ?k) (contents a1 s1)"
      by blast
    have "replaceN rt a s (int i) (int n) vals = Inr (a', s1)"
      using shrink by (simp add: replaceN_def r fin)
    moreover have "len s1 = len s - n + ?k"
      using assms(2) shrink len1 by simp
    moreover have "contents a' s1 = take i ?S @ vals @ drop (i + n) ?S"
      unfolding c' c1 using assms(2) shrink L by (simp add: add.commute)
    ultimately show ?thesis
      using wf' by blast
  next
    case grow
    let ?d = "?k - n"
    define delta where "delta = int ?k - int n"
    have fr: "vals_upto vals delta = Inr (take ?d vals)"
      using grow by (simp add: vals_upto_def delta_def nat_diff_distrib')
    have re: "vals_from vals delta = Inr (drop ?d vals)"
      using grow by (simp add: vals_from_def delta_def nat_diff_distrib')
    have ile: "i \<le> len s"
      using assms(2) by arith
    from insert_go_spec [OF assms(1) ile, of rt "take ?d vals"]
    obtain a1 s1 where ins: "insert_go rt a s (int i) (take ?d vals) = Inr (a1, s1)"
      and wf1: "wf_slice a1 s1"
      and len1': "len s1 = len s + length (take ?d vals)"
      and c1: "contents a1 s1 = take i ?S @ take ?d vals @ drop i ?S"
      by blast
    have len1: "len s1 = len s + ?d"
      using len1' by (auto simp: min_def)
    have fit: "(i + ?d) + length (drop ?d vals) \<le> len s1"
      using assms(2) grow len1 by simp
    from copy_vals_spec [OF wf1 fit]
    obtain a' where fin: "(case slice_from s1 (int (i + ?d)) of Inl e \<Rightarrow> Inl e
                           | Inr dst \<Rightarrow> Inr (copy_vals a1 dst (drop ?d vals), s1)) = Inr (a', s1)"
      and wf': "wf_slice a' s1"
      and c': "contents a' s1 = take (i + ?d) (contents a1 s1) @ drop ?d vals
                 @ drop (i + ?d + length (drop ?d vals)) (contents a1 s1)"
      by blast
    have idx: "int i + delta = int (i + ?d)"
      using grow by (simp add: delta_def)
    have "replaceN rt a s (int i) (int n) vals
            = (case slice_from s1 (int i + delta) of Inl e \<Rightarrow> Inl e
               | Inr dst \<Rightarrow> Inr (copy_vals a1 dst (drop ?d vals), s1))"
      unfolding replaceN_def Let_def delta_def [symmetric]
      using grow by (simp add: fr re ins)
    also have "\<dots> = Inr (a', s1)"
      unfolding idx by (rule fin)
    finally have "replaceN rt a s (int i) (int n) vals = Inr (a', s1)" .
    moreover have "len s1 = len s - n + ?k"
      using assms(2) grow len1 by simp
    moreover have "contents a' s1 = take i ?S @ vals @ drop (i + n) ?S"
    proof -
      have c1': "contents a1 s1 = (take i ?S @ take ?d vals) @ drop i ?S"
        using c1 by simp
      have lp: "length (take i ?S @ take ?d vals) = i + ?d"
        using ile L by (auto simp: min_def)
      have lr: "length (drop ?d vals) = n"
        using grow by simp
      have "contents a' s1 = (take i ?S @ take ?d vals) @ drop ?d vals @ drop n (drop i ?S)"
        unfolding c' c1' lr using lp by (rule splice_mid)
      then show ?thesis
        by (simp add: add.commute)
    qed
    ultimately show ?thesis
      using wf' by blast
  next
    case same
    have fit: "i + ?k \<le> len s"
      using assms(2) same by simp
    from copy_vals_spec [OF assms(1) fit]
    obtain a' where fin: "(case slice_from s (int i) of Inl e \<Rightarrow> Inl e
                           | Inr dst \<Rightarrow> Inr (copy_vals a dst vals, s)) = Inr (a', s)"
      and wf': "wf_slice a' s"
      and c': "contents a' s = take i ?S @ vals @ drop (i + ?k) ?S"
      by blast
    have "replaceN rt a s (int i) (int n) vals = Inr (a', s)"
      using same by (simp add: replaceN_def fin)
    then show ?thesis
      using wf' c' same fit by auto
  qed
qed

section \<open>The exported functions through the normalized index\<close>




lemma Insert_normalize: "Insert rt a s idx vals = insert_go rt a s (normalize_idx s idx) vals"
  by (simp add: Insert_def normalize_idx_def)

lemma RemoveN_normalize: "RemoveN a s idx n = removeN a s (normalize_idx s idx) n"
  by (simp add: RemoveN_def normalize_idx_def)

lemma ReplaceN_normalize: "ReplaceN rt a s idx n vals = replaceN rt a s (normalize_idx s idx) n vals"
  by (simp add: ReplaceN_def normalize_idx_def)

lemma RemoveTo_normalize:
  "RemoveTo a s from to = removeN a s (normalize_idx s from) (normalize_to s to - normalize_idx s from)"
  by (simp add: RemoveTo_def normalize_idx_def normalize_to_def Let_def)

section \<open>Insert\<close>



section \<open>ReplaceN\<close>



section \<open>Insert and RemoveN\<close>

text \<open>
  C3. For a position \<open>i \<le> len(S)\<close> (an index that is normalized already), inserting
  \<open>vals\<close> at \<open>i\<close> and then removing \<open>len(vals)\<close> elements at \<open>i\<close> returns a sequence with
  the length and the elements of \<open>S\<close>, in the same order.
\<close>

theorem Insert_RemoveN_inverse:
  assumes "wf_slice a s" and "i \<le> len s"
  shows "\<exists>a1 s1 a2 s2. Insert rt a s (int i) vals = Inr (a1, s1)
           \<and> RemoveN a1 s1 (int i) (int (length vals)) = Inr (a2, s2)
           \<and> contents a2 s2 = contents a s \<and> len s2 = len s"
proof -
  from insert_go_spec [OF assms, of rt vals]
  obtain a1 s1 where ins: "insert_go rt a s (int i) vals = Inr (a1, s1)"
    and wf1: "wf_slice a1 s1"
    and len1: "len s1 = len s + length vals"
    and c1: "contents a1 s1 = take i (contents a s) @ vals @ drop i (contents a s)"
    by blast
  have L: "length (contents a s) = len s"
    using assms(1) by (rule length_contents)
  have fit: "i + length vals \<le> len s1"
    using assms(2) len1 by simp
  let ?a2 = "store a1 (off s1 + i) (drop (i + length vals) (contents a1 s1))"
  let ?s2 = "s1\<lparr>len := len s1 - length vals\<rparr>"
  have rem: "removeN a1 s1 (int i) (int (length vals)) = Inr (?a2, ?s2)"
    using wf1 fit by (rule removeN_spec(1))
  have "contents ?a2 ?s2 = take i (contents a1 s1) @ drop (i + length vals) (contents a1 s1)"
    using wf1 fit by (rule removeN_spec(2))
  also have "\<dots> = take i (contents a s) @ drop i (contents a s)"
    unfolding c1 using assms(2) L by simp
  finally have c2: "contents ?a2 ?s2 = contents a s"
    by simp
  have "Insert rt a s (int i) vals = Inr (a1, s1)"
    using ins by (simp add: Insert_normalize normalize_idx_def)
  moreover have "RemoveN a1 s1 (int i) (int (length vals)) = Inr (?a2, ?s2)"
    using rem by (simp add: RemoveN_normalize normalize_idx_def)
  moreover have "len ?s2 = len s"
    using len1 by simp
  ultimately show ?thesis
    using c2 by blast
qed

theorem Insert_RemoveN_inverse_witness:
  "wf_slice ''xyz'' \<lparr>off = 0, len = 3, cap = 3\<rparr>
   \<and> 1 \<le> len \<lparr>off = 0, len = 3, cap = 3\<rparr>
   \<and> (\<exists>a1 s1 a2 s2. Insert example_rt ''xyz'' \<lparr>off = 0, len = 3, cap = 3\<rparr> (int 1) ''abc'' = Inr (a1, s1)
          \<and> RemoveN a1 s1 (int 1) (int (length ''abc'')) = Inr (a2, s2)
          \<and> contents a2 s2 = ''xyz'' \<and> len s2 = 3)"
proof -
  let ?s = "\<lparr>off = 0, len = 3, cap = 3\<rparr>"
  have h1: "wf_slice ''xyz'' ?s"
    by (simp add: wf_slice_def)
  have h2: "1 \<le> len ?s"
    by simp
  have c: "contents ''xyz'' ?s = ''xyz''"
    by (simp add: contents_def)
  show ?thesis
    using h1 h2 Insert_RemoveN_inverse [OF h1 h2, of example_rt "''abc''"]
    unfolding c by simp
qed

section \<open>Lengths\<close>

text \<open>
  C4. For in-range arguments (the normalized index a position \<open>i\<close>, with \<open>i \<le> len(S)\<close> for
  Insert and \<open>i + n \<le> len(S)\<close> for a count \<open>n\<close> in RemoveN and ReplaceN) each call returns and
  \<open>len(Insert(S, idx, vals...)) = len(S) + len(vals)\<close>,
  \<open>len(RemoveN(S, idx, n)) = len(S) - n\<close> and
  \<open>len(ReplaceN(S, idx, n, vals...)) = len(S) - n + len(vals)\<close>, for the length in the
  header and for the number of elements alike.
\<close>

theorem length_algebra:
  assumes "wf_slice a s" and "normalize_idx s idx = int i"
  shows "(i \<le> len s \<longrightarrow>
            (\<exists>a' s'. Insert rt a s idx vals = Inr (a', s')
               \<and> len s' = len s + length vals
               \<and> length (contents a' s') = length (contents a s) + length vals))
       \<and> (i + n \<le> len s \<longrightarrow>
            (\<exists>a' s'. RemoveN a s idx (int n) = Inr (a', s')
               \<and> int (len s') = int (len s) - int n
               \<and> int (length (contents a' s')) = int (length (contents a s)) - int n))
       \<and> (i + n \<le> len s \<longrightarrow>
            (\<exists>a' s'. ReplaceN rt a s idx (int n) vals = Inr (a', s')
               \<and> int (len s') = int (len s) - int n + int (length vals)
               \<and> int (length (contents a' s'))
                    = int (length (contents a s)) - int n + int (length vals)))"
proof (intro conjI impI)
  have L: "length (contents a s) = len s"
    using assms(1) by (rule length_contents)
  {
    assume ile: "i \<le> len s"
    from insert_go_spec [OF assms(1) ile, of rt vals]
    obtain a' s' where "insert_go rt a s (int i) vals = Inr (a', s')"
      and "wf_slice a' s'" and "len s' = len s + length vals"
      by blast
    then show "\<exists>a' s'. Insert rt a s idx vals = Inr (a', s')
                 \<and> len s' = len s + length vals
                 \<and> length (contents a' s') = length (contents a s) + length vals"
      using L by (auto simp: Insert_normalize assms(2) length_contents)
  }
  {
    assume fit: "i + n \<le> len s"
    let ?a' = "store a (off s + i) (drop (i + n) (contents a s))"
    let ?s' = "s\<lparr>len := len s - n\<rparr>"
    have "RemoveN a s idx (int n) = Inr (?a', ?s')"
      using removeN_spec(1) [OF assms(1) fit] by (simp add: RemoveN_normalize assms(2))
    moreover have "wf_slice ?a' ?s'"
      using assms(1) by (intro wf_store wf_shrink) simp_all
    then have "length (contents ?a' ?s') = len s - n"
      by (simp add: length_contents)
    ultimately show "\<exists>a' s'. RemoveN a s idx (int n) = Inr (a', s')
                 \<and> int (len s') = int (len s) - int n
                 \<and> int (length (contents a' s')) = int (length (contents a s)) - int n"
      using fit L by (intro exI [of _ ?a'] exI [of _ ?s']) simp
  }
  {
    assume fit: "i + n \<le> len s"
    from replaceN_spec [OF assms(1) fit, of rt vals]
    obtain a' s' where "replaceN rt a s (int i) (int n) vals = Inr (a', s')"
      and "wf_slice a' s'" and "len s' = len s - n + length vals"
      by blast
    then show "\<exists>a' s'. ReplaceN rt a s idx (int n) vals = Inr (a', s')
                 \<and> int (len s') = int (len s) - int n + int (length vals)
                 \<and> int (length (contents a' s'))
                      = int (length (contents a s)) - int n + int (length vals)"
      using fit L by (auto simp: ReplaceN_normalize assms(2) length_contents)
  }
qed

theorem length_algebra_witness:
  "wf_slice ''abcd'' \<lparr>off = 0, len = 4, cap = 4\<rparr>
   \<and> normalize_idx \<lparr>off = 0, len = 4, cap = 4\<rparr> (- 3) = int 1
   \<and> 1 \<le> len \<lparr>off = 0, len = 4, cap = 4\<rparr>
   \<and> (\<exists>a' s'. Insert example_rt ''abcd'' \<lparr>off = 0, len = 4, cap = 4\<rparr> (- 3) ''xyz'' = Inr (a', s')
          \<and> len s' = 7)
   \<and> 1 + 2 \<le> len \<lparr>off = 0, len = 4, cap = 4\<rparr>
   \<and> (\<exists>a' s'. RemoveN ''abcd'' \<lparr>off = 0, len = 4, cap = 4\<rparr> (- 3) (int 2) = Inr (a', s')
          \<and> int (len s') = 2)
   \<and> (\<exists>a' s'. ReplaceN example_rt ''abcd'' \<lparr>off = 0, len = 4, cap = 4\<rparr> (- 3) (int 2) ''xyz''
                  = Inr (a', s') \<and> int (len s') = 5)"
proof -
  let ?s = "\<lparr>off = 0, len = 4, cap = 4\<rparr>"
  have h1: "wf_slice ''abcd'' ?s"
    by (simp add: wf_slice_def)
  have h2: "normalize_idx ?s (- 3) = int 1"
    by (simp add: normalize_idx_def)
  have h3: "1 \<le> len ?s" and h4: "1 + 2 \<le> len ?s"
    by simp_all
  from length_algebra [OF h1 h2, of example_rt "''xyz''" 2] h3 h4
  have "(\<exists>a' s'. Insert example_rt ''abcd'' ?s (- 3) ''xyz'' = Inr (a', s') \<and> len s' = 7)
      \<and> (\<exists>a' s'. RemoveN ''abcd'' ?s (- 3) (int 2) = Inr (a', s') \<and> int (len s') = 2)
      \<and> (\<exists>a' s'. ReplaceN example_rt ''abcd'' ?s (- 3) (int 2) ''xyz'' = Inr (a', s')
             \<and> int (len s') = 5)"
    by simp blast
  then show ?thesis
    using h1 h2 h3 h4 by blast
qed

section \<open>Get and Put\<close>

lemma Get_normalize: "Get a s idx = index_read a s (normalize_idx s idx)"
  by (simp add: Get_def normalize_idx_def)

lemma Put_normalize: "Put a s idx v = index_write a s (normalize_idx s idx) v"
  by (simp add: Put_def normalize_idx_def)

lemma contents_update:
  assumes "wf_slice a s" and "j < len s"
  shows "contents (a[off s + j := v]) s = (contents a s)[j := v]"
proof -
  have "drop (off s) (a[off s + j := v]) = (drop (off s) a)[j := v]"
    by (simp add: drop_update_swap)
  then show ?thesis
    by (simp add: contents_def take_update_swap)
qed

text \<open>
  C5. A negative index \<open>i\<close> with \<open>-len(S) \<le> i < 0\<close> stands for the position \<open>i + len(S)\<close>:
  \<open>Get(S, i)\<close> is \<open>Get(S, i + len(S))\<close>, the element at that position, and \<open>Put(S, i, v)\<close> is
  \<open>Put(S, i + len(S), v)\<close>, which writes \<open>v\<close> at that position and nothing else of \<open>S\<close>.
  The witness is \<open>Get([p,q,r], -1) = r\<close> and \<open>Put([p,q,r], -1, z)\<close> leaving \<open>[p,q,z]\<close>.
\<close>

theorem negative_index_from_end:
  assumes "wf_slice a s" and "- int (len s) \<le> i" and "i < 0"
  shows "Get a s i = Get a s (i + int (len s))
       \<and> Get a s i = Inr (contents a s ! nat (i + int (len s)))
       \<and> Put a s i v = Put a s (i + int (len s)) v
       \<and> (\<exists>a'. Put a s i v = Inr a' \<and> length a' = length a
              \<and> contents a' s = (contents a s)[nat (i + int (len s)) := v])"
proof -
  let ?j = "nat (i + int (len s))"
  have n1: "normalize_idx s i = int ?j"
    using assms(2,3) by (simp add: normalize_idx_def)
  have n2: "normalize_idx s (i + int (len s)) = int ?j"
    using assms(2,3) by (simp add: normalize_idx_def)
  have j: "?j < len s"
    using assms(2,3) by arith
  have g: "Get a s i = Inr (a ! (off s + ?j))"
    unfolding Get_normalize n1 index_read_def using j assms(2,3) by simp
  have p: "Put a s i v = Inr (a[off s + ?j := v])"
    unfolding Put_normalize n1 index_write_def using j assms(2,3) by simp
  have "Get a s i = Get a s (i + int (len s))"
    by (simp only: Get_normalize n1 n2)
  moreover have "Get a s i = Inr (contents a s ! ?j)"
    using g nth_contents [OF assms(1) j] by simp
  moreover have "Put a s i v = Put a s (i + int (len s)) v"
    by (simp only: Put_normalize n1 n2)
  moreover have "\<exists>a'. Put a s i v = Inr a' \<and> length a' = length a
                      \<and> contents a' s = (contents a s)[?j := v]"
    using p contents_update [OF assms(1) j, of v] by simp
  ultimately show ?thesis
    by blast
qed

theorem negative_index_from_end_witness:
  "wf_slice ''pqr'' \<lparr>off = 0, len = 3, cap = 3\<rparr>
   \<and> - int (len \<lparr>off = 0, len = 3, cap = 3\<rparr>) \<le> - 1 \<and> (- 1 :: int) < 0
   \<and> Get ''pqr'' \<lparr>off = 0, len = 3, cap = 3\<rparr> (- 1) = Inr CHR ''r''
   \<and> (\<exists>a'. Put ''pqr'' \<lparr>off = 0, len = 3, cap = 3\<rparr> (- 1) CHR ''z'' = Inr a'
          \<and> contents a' \<lparr>off = 0, len = 3, cap = 3\<rparr> = ''pqz'')"
proof -
  let ?s = "\<lparr>off = 0, len = 3, cap = 3\<rparr>"
  have h1: "wf_slice ''pqr'' ?s"
    by (simp add: wf_slice_def)
  have h2: "- int (len ?s) \<le> - 1"
    by simp
  have h3: "(- 1 :: int) < 0"
    by simp
  have c: "contents ''pqr'' ?s = ''pqr''"
    by (simp add: contents_def)
  note inst = negative_index_from_end [OF h1 h2 h3, of "CHR ''z''"]
  from inst have "Get ''pqr'' ?s (- 1) = Inr (contents ''pqr'' ?s ! nat (- 1 + int (len ?s)))"
    by blast
  then have g: "Get ''pqr'' ?s (- 1) = Inr CHR ''r''"
    unfolding c by simp
  from inst obtain a' where "Put ''pqr'' ?s (- 1) CHR ''z'' = Inr a'"
    and "contents a' ?s = (contents ''pqr'' ?s)[nat (- 1 + int (len ?s)) := CHR ''z'']"
    by blast
  then have "Put ''pqr'' ?s (- 1) CHR ''z'' = Inr a' \<and> contents a' ?s = ''pqz''"
    unfolding c by simp
  then show ?thesis
    using h1 h2 h3 g by blast
qed

text \<open>
  C9. Get and Put check nothing themselves: each is the index expression of the language
  at the normalized index. So \<open>Get(S, idx)\<close> yields an element exactly when the normalized
  index lies in \<open>[0, len(S))\<close>, and it is then the element at that position; outside that
  range the index expression panics with the runtime's index-out-of-range error, and no
  index is clamped. Put behaves alike.
\<close>

theorem Get_Put_no_validation:
  "Get a s idx = index_read a s (normalize_idx s idx)
   \<and> Put a s idx v = index_write a s (normalize_idx s idx) v
   \<and> ((\<exists>x. Get a s idx = Inr x) \<longleftrightarrow> 0 \<le> normalize_idx s idx \<and> normalize_idx s idx < int (len s))
   \<and> ((\<exists>a'. Put a s idx v = Inr a') \<longleftrightarrow> 0 \<le> normalize_idx s idx \<and> normalize_idx s idx < int (len s))
   \<and> (0 \<le> normalize_idx s idx \<and> normalize_idx s idx < int (len s) \<longrightarrow>
        Get a s idx = Inr (a ! (off s + nat (normalize_idx s idx)))
        \<and> Put a s idx v = Inr (a[off s + nat (normalize_idx s idx) := v]))
   \<and> (\<not> (0 \<le> normalize_idx s idx \<and> normalize_idx s idx < int (len s)) \<longrightarrow>
        Get a s idx = Inl IndexOutOfRange \<and> Put a s idx v = Inl IndexOutOfRange)"
  by (simp add: Get_normalize Put_normalize index_read_def index_write_def)

theorem Get_Put_no_validation_witness:
  "0 \<le> normalize_idx \<lparr>off = 0, len = 3, cap = 3\<rparr> (- 2)
   \<and> normalize_idx \<lparr>off = 0, len = 3, cap = 3\<rparr> (- 2) < int (len \<lparr>off = 0, len = 3, cap = 3\<rparr>)
   \<and> Get ''pqr'' \<lparr>off = 0, len = 3, cap = 3\<rparr> (- 2) = Inr CHR ''q''
   \<and> Put ''pqr'' \<lparr>off = 0, len = 3, cap = 3\<rparr> (- 2) CHR ''z'' = Inr ''pzr''
   \<and> \<not> (0 \<le> normalize_idx \<lparr>off = 0, len = 3, cap = 3\<rparr> 3
          \<and> normalize_idx \<lparr>off = 0, len = 3, cap = 3\<rparr> 3 < int (len \<lparr>off = 0, len = 3, cap = 3\<rparr>))
   \<and> Get ''pqr'' \<lparr>off = 0, len = 3, cap = 3\<rparr> 3 = Inl IndexOutOfRange
   \<and> Put ''pqr'' \<lparr>off = 0, len = 3, cap = 3\<rparr> 3 CHR ''z'' = Inl IndexOutOfRange
   \<and> \<not> (0 \<le> normalize_idx \<lparr>off = 0, len = 3, cap = 3\<rparr> (- 4)
          \<and> normalize_idx \<lparr>off = 0, len = 3, cap = 3\<rparr> (- 4) < int (len \<lparr>off = 0, len = 3, cap = 3\<rparr>))
   \<and> Get ''pqr'' \<lparr>off = 0, len = 3, cap = 3\<rparr> (- 4) = Inl IndexOutOfRange
   \<and> Put ''pqr'' \<lparr>off = 0, len = 3, cap = 3\<rparr> (- 4) CHR ''z'' = Inl IndexOutOfRange"
proof -
  let ?s = "\<lparr>off = 0, len = 3, cap = 3\<rparr>"
  have n1: "normalize_idx ?s (- 2) = 1" and n2: "normalize_idx ?s 3 = 3" and n3: "normalize_idx ?s (- 4) = - 1"
    by (simp_all add: normalize_idx_def)
  show ?thesis
    using Get_Put_no_validation [of "''pqr''" ?s "- 2" "CHR ''z''"]
      Get_Put_no_validation [of "''pqr''" ?s 3 "CHR ''z''"]
      Get_Put_no_validation [of "''pqr''" ?s "- 4" "CHR ''z''"]
    unfolding n1 n2 n3 by (simp add: index_read_def index_write_def)
qed

section \<open>The range views\<close>

lemma Prefix_normalize:
  "Prefix a s idx
     = (case slice_upto s (normalize_idx s idx) of Inl e \<Rightarrow> Inl e | Inr v \<Rightarrow> Inr (a, v))"
  by (simp add: Prefix_def normalize_idx_def)

lemma Suffix_normalize:
  "Suffix a s idx
     = (case slice_from s (normalize_idx s idx) of Inl e \<Rightarrow> Inl e | Inr v \<Rightarrow> Inr (a, v))"
  by (simp add: Suffix_def normalize_idx_def)

lemma SliceN_normalize:
  "SliceN a s idx n
     = (case slice_expr s (normalize_idx s idx) (normalize_idx s idx + n) of
          Inl e \<Rightarrow> Inl e | Inr v \<Rightarrow> Inr (a, v))"
  by (simp add: SliceN_def normalize_idx_def Let_def)

lemma SliceTo_normalize:
  "SliceTo a s from to
     = (case slice_expr s (normalize_idx s from) (normalize_to s to) of
          Inl e \<Rightarrow> Inl e | Inr v \<Rightarrow> Inr (a, v))"
  by (simp add: SliceTo_def normalize_idx_def normalize_to_def Let_def)

lemma slice_expr_nat:
  "f \<le> t \<Longrightarrow> t \<le> cap s \<Longrightarrow>
   slice_expr s (int f) (int t) = Inr \<lparr>off = off s + f, len = t - f, cap = cap s - f\<rparr>"
  by (simp add: slice_expr_def nat_diff_distrib')

lemma contents_window:
  assumes "wf_slice a s" and "f \<le> t" and "t \<le> len s"
  shows "contents a \<lparr>off = off s + f, len = t - f, cap = cap s - f\<rparr>
           = take (t - f) (drop f (contents a s))"
proof -
  have "take (t - f) (drop f (take (len s) (drop (off s) a)))
          = take (t - f) (take (len s - f) (drop (f + off s) a))"
    by (simp add: drop_take)
  also have "\<dots> = take (t - f) (drop (off s + f) a)"
    using assms(2,3) by (simp add: min_def add.commute)
  finally show ?thesis
    by (simp add: contents_def)
qed

lemma wf_window:
  "wf_slice a s \<Longrightarrow> f \<le> t \<Longrightarrow> t \<le> len s \<Longrightarrow>
   wf_slice a \<lparr>off = off s + f, len = t - f, cap = cap s - f\<rparr>"
  unfolding wf_slice_def by auto

lemma Prefix_spec:
  assumes "wf_slice a s" and "normalize_idx s idx = int i" and "i \<le> len s"
  shows "Prefix a s idx = Inr (a, s\<lparr>len := i\<rparr>)"
    and "contents a (s\<lparr>len := i\<rparr>) = take i (contents a s)"
    and "wf_slice a (s\<lparr>len := i\<rparr>)"
proof -
  have "i \<le> cap s"
    using assms(3) wf_len_cap [OF assms(1)] by arith
  then show "Prefix a s idx = Inr (a, s\<lparr>len := i\<rparr>)"
    by (simp add: Prefix_normalize assms(2) slice_upto_nat)
  show "contents a (s\<lparr>len := i\<rparr>) = take i (contents a s)"
    using assms(3) by (rule contents_take)
  show "wf_slice a (s\<lparr>len := i\<rparr>)"
    using assms(1,3) by (rule wf_shrink)
qed

lemma Suffix_spec:
  assumes "wf_slice a s" and "normalize_idx s idx = int i" and "i \<le> len s"
  shows "Suffix a s idx = Inr (a, \<lparr>off = off s + i, len = len s - i, cap = cap s - i\<rparr>)"
    and "contents a \<lparr>off = off s + i, len = len s - i, cap = cap s - i\<rparr> = drop i (contents a s)"
    and "wf_slice a \<lparr>off = off s + i, len = len s - i, cap = cap s - i\<rparr>"
proof -
  show "Suffix a s idx = Inr (a, \<lparr>off = off s + i, len = len s - i, cap = cap s - i\<rparr>)"
    using slice_from_nat [OF assms(3) wf_len_cap [OF assms(1)]]
    by (simp add: Suffix_normalize assms(2))
  show "contents a \<lparr>off = off s + i, len = len s - i, cap = cap s - i\<rparr> = drop i (contents a s)"
    using assms(1,3) by (rule contents_drop)
  show "wf_slice a \<lparr>off = off s + i, len = len s - i, cap = cap s - i\<rparr>"
    using assms(1,3) by (intro wf_window) simp_all
qed

text \<open>
  C6. For an index \<open>k\<close> whose normalized value is a position \<open>i \<le> len(S)\<close>,
  \<open>SliceTo(S, k, 0)\<close> is \<open>Suffix(S, k)\<close>: the end-point 0 stands for \<open>len(S)\<close>, so the call is
  \<open>SliceTo(S, k, len(S))\<close> and returns the elements from \<open>i\<close> to the end.
\<close>

theorem SliceTo_zero_is_Suffix:
  assumes "wf_slice a s" and "normalize_idx s k = int i" and "i \<le> len s"
  shows "SliceTo a s k 0 = Suffix a s k
       \<and> SliceTo a s k 0 = SliceTo a s k (int (len s))
       \<and> (\<exists>v. SliceTo a s k 0 = Inr (a, v) \<and> wf_slice a v
              \<and> contents a v = drop i (contents a s))"
proof -
  have eq: "SliceTo a s k 0 = Suffix a s k"
    by (simp add: SliceTo_normalize Suffix_normalize normalize_to_def slice_from_def)
  have "normalize_to s (int (len s)) = int (len s)"
    by (simp add: normalize_to_def)
  then have "SliceTo a s k 0 = SliceTo a s k (int (len s))"
    by (simp add: SliceTo_normalize normalize_to_def)
  moreover have "\<exists>v. SliceTo a s k 0 = Inr (a, v) \<and> wf_slice a v
                      \<and> contents a v = drop i (contents a s)"
    unfolding eq using Suffix_spec [OF assms] by simp
  ultimately show ?thesis
    using eq by blast
qed

theorem SliceTo_zero_is_Suffix_witness:
  "wf_slice ''abcd'' \<lparr>off = 0, len = 4, cap = 4\<rparr>
   \<and> normalize_idx \<lparr>off = 0, len = 4, cap = 4\<rparr> (- 3) = int 1
   \<and> 1 \<le> len \<lparr>off = 0, len = 4, cap = 4\<rparr>
   \<and> SliceTo ''abcd'' \<lparr>off = 0, len = 4, cap = 4\<rparr> (- 3) 0
        = Suffix ''abcd'' \<lparr>off = 0, len = 4, cap = 4\<rparr> (- 3)
   \<and> (\<exists>v. SliceTo ''abcd'' \<lparr>off = 0, len = 4, cap = 4\<rparr> (- 3) 0 = Inr (''abcd'', v)
          \<and> contents ''abcd'' v = ''bcd'')"
proof -
  let ?s = "\<lparr>off = 0, len = 4, cap = 4\<rparr>"
  have h1: "wf_slice ''abcd'' ?s"
    by (simp add: wf_slice_def)
  have h2: "normalize_idx ?s (- 3) = int 1"
    by (simp add: normalize_idx_def)
  have h3: "1 \<le> len ?s"
    by simp
  have c: "contents ''abcd'' ?s = ''abcd''"
    by (simp add: contents_def)
  note inst = SliceTo_zero_is_Suffix [OF h1 h2 h3]
  from inst have e: "SliceTo ''abcd'' ?s (- 3) 0 = Suffix ''abcd'' ?s (- 3)"
    by blast
  from inst obtain v where "SliceTo ''abcd'' ?s (- 3) 0 = Inr (''abcd'', v)"
    and "contents ''abcd'' v = drop 1 (contents ''abcd'' ?s)"
    by blast
  then have "SliceTo ''abcd'' ?s (- 3) 0 = Inr (''abcd'', v) \<and> contents ''abcd'' v = ''bcd''"
    unfolding c by simp
  then show ?thesis
    using h1 h2 h3 e by blast
qed

text \<open>
  C10. For an index \<open>k\<close> whose normalized value is a position \<open>i \<le> len(S)\<close>, the elements of
  \<open>Prefix(S, k)\<close> followed by the elements of \<open>Suffix(S, k)\<close> are the elements of \<open>S\<close>.
\<close>

theorem Prefix_Suffix_split:
  assumes "wf_slice a s" and "normalize_idx s k = int i" and "i \<le> len s"
  shows "\<exists>p q. Prefix a s k = Inr (a, p) \<and> Suffix a s k = Inr (a, q)
           \<and> contents a p @ contents a q = contents a s"
proof -
  let ?p = "s\<lparr>len := i\<rparr>"
  let ?q = "\<lparr>off = off s + i, len = len s - i, cap = cap s - i\<rparr>"
  have "contents a ?p @ contents a ?q = contents a s"
    unfolding Prefix_spec(2) [OF assms] Suffix_spec(2) [OF assms] by simp
  then show ?thesis
    using Prefix_spec(1) [OF assms] Suffix_spec(1) [OF assms] by blast
qed

theorem Prefix_Suffix_split_witness:
  "wf_slice ''abcd'' \<lparr>off = 0, len = 4, cap = 4\<rparr>
   \<and> normalize_idx \<lparr>off = 0, len = 4, cap = 4\<rparr> (- 3) = int 1
   \<and> 1 \<le> len \<lparr>off = 0, len = 4, cap = 4\<rparr>
   \<and> (\<exists>p q. Prefix ''abcd'' \<lparr>off = 0, len = 4, cap = 4\<rparr> (- 3) = Inr (''abcd'', p)
          \<and> Suffix ''abcd'' \<lparr>off = 0, len = 4, cap = 4\<rparr> (- 3) = Inr (''abcd'', q)
          \<and> contents ''abcd'' p @ contents ''abcd'' q = ''abcd'')"
proof -
  let ?s = "\<lparr>off = 0, len = 4, cap = 4\<rparr>"
  have h1: "wf_slice ''abcd'' ?s"
    by (simp add: wf_slice_def)
  have h2: "normalize_idx ?s (- 3) = int 1"
    by (simp add: normalize_idx_def)
  have h3: "1 \<le> len ?s"
    by simp
  have c: "contents ''abcd'' ?s = ''abcd''"
    by (simp add: contents_def)
  show ?thesis
    using h1 h2 h3 Prefix_Suffix_split [OF h1 h2 h3] unfolding c by blast
qed

text \<open>
  C8. For in-range normalized arguments each view returns a header over the array it was
  given, and the array is returned as it was: \<open>Prefix(S, idx)\<close> holds the elements at the
  positions \<open>[0, i)\<close>, \<open>Suffix(S, idx)\<close> those at \<open>[i, len(S))\<close>, \<open>SliceN(S, idx, n)\<close> those at
  \<open>[i, i+n)\<close> and \<open>SliceTo(S, from, to)\<close> those at \<open>[f, t)\<close>, where \<open>i\<close> and \<open>f\<close> are the
  normalized \<open>idx\<close> and \<open>from\<close> and \<open>t\<close> is the normalized end-point \<open>to\<close>. As no cell is
  written and the header of \<open>S\<close> is the caller's own, the elements and the length of \<open>S\<close>
  are after the call what they were before it.
\<close>

theorem range_views_project:
  assumes "wf_slice a s"
  shows "(normalize_idx s idx = int i \<and> i \<le> len s \<longrightarrow>
            (\<exists>v. Prefix a s idx = Inr (a, v) \<and> wf_slice a v \<and> off v = off s
                \<and> contents a v = take i (contents a s))
          \<and> (\<exists>v. Suffix a s idx = Inr (a, v) \<and> wf_slice a v \<and> off v = off s + i
                \<and> contents a v = drop i (contents a s)))
       \<and> (normalize_idx s idx = int i \<and> i + n \<le> len s \<longrightarrow>
            (\<exists>v. SliceN a s idx (int n) = Inr (a, v) \<and> wf_slice a v \<and> off v = off s + i
                \<and> contents a v = take n (drop i (contents a s))))
       \<and> (normalize_idx s from = int f \<and> normalize_to s to = int t \<and> f \<le> t \<and> t \<le> len s \<longrightarrow>
            (\<exists>v. SliceTo a s from to = Inr (a, v) \<and> wf_slice a v \<and> off v = off s + f
                \<and> contents a v = take (t - f) (drop f (contents a s))))"
proof (intro conjI impI)
  have lc: "len s \<le> cap s"
    using assms by (rule wf_len_cap)
  {
    assume h: "normalize_idx s idx = int i \<and> i \<le> len s"
    then have n: "normalize_idx s idx = int i" and le: "i \<le> len s"
      by simp_all
    show "\<exists>v. Prefix a s idx = Inr (a, v) \<and> wf_slice a v \<and> off v = off s
              \<and> contents a v = take i (contents a s)"
      using Prefix_spec [OF assms n le] by simp
    show "\<exists>v. Suffix a s idx = Inr (a, v) \<and> wf_slice a v \<and> off v = off s + i
              \<and> contents a v = drop i (contents a s)"
      using Suffix_spec [OF assms n le] by simp
  }
  {
    assume h: "normalize_idx s idx = int i \<and> i + n \<le> len s"
    then have n: "normalize_idx s idx = int i" and le: "i + n \<le> len s"
      by simp_all
    let ?v = "\<lparr>off = off s + i, len = i + n - i, cap = cap s - i\<rparr>"
    have "slice_expr s (int i) (int (i + n)) = Inr ?v"
      using le lc by (intro slice_expr_nat) simp_all
    then have "SliceN a s idx (int n) = Inr (a, ?v)"
      by (simp add: SliceN_normalize n)
    moreover have "wf_slice a ?v"
      using assms le by (intro wf_window) simp_all
    moreover have "contents a ?v = take (i + n - i) (drop i (contents a s))"
      using assms le by (intro contents_window) simp_all
    ultimately show "\<exists>v. SliceN a s idx (int n) = Inr (a, v) \<and> wf_slice a v \<and> off v = off s + i
              \<and> contents a v = take n (drop i (contents a s))"
      by simp
  }
  {
    assume h: "normalize_idx s from = int f \<and> normalize_to s to = int t \<and> f \<le> t \<and> t \<le> len s"
    then have nf: "normalize_idx s from = int f" and nt: "normalize_to s to = int t"
      and ft: "f \<le> t" and tl: "t \<le> len s"
      by simp_all
    let ?v = "\<lparr>off = off s + f, len = t - f, cap = cap s - f\<rparr>"
    have "slice_expr s (int f) (int t) = Inr ?v"
      using ft tl lc by (intro slice_expr_nat) simp_all
    then have "SliceTo a s from to = Inr (a, ?v)"
      by (simp add: SliceTo_normalize nf nt)
    moreover have "wf_slice a ?v"
      using assms ft tl by (rule wf_window)
    moreover have "contents a ?v = take (t - f) (drop f (contents a s))"
      using assms ft tl by (rule contents_window)
    ultimately show "\<exists>v. SliceTo a s from to = Inr (a, v) \<and> wf_slice a v \<and> off v = off s + f
              \<and> contents a v = take (t - f) (drop f (contents a s))"
      by simp
  }
qed

theorem range_views_project_witness:
  "wf_slice ''abcde'' \<lparr>off = 0, len = 5, cap = 5\<rparr>
   \<and> normalize_idx \<lparr>off = 0, len = 5, cap = 5\<rparr> (- 4) = int 1
   \<and> 1 \<le> len \<lparr>off = 0, len = 5, cap = 5\<rparr>
   \<and> (\<exists>v. Prefix ''abcde'' \<lparr>off = 0, len = 5, cap = 5\<rparr> (- 4) = Inr (''abcde'', v)
          \<and> contents ''abcde'' v = ''a'')
   \<and> (\<exists>v. Suffix ''abcde'' \<lparr>off = 0, len = 5, cap = 5\<rparr> (- 4) = Inr (''abcde'', v)
          \<and> contents ''abcde'' v = ''bcde'')
   \<and> 1 + 2 \<le> len \<lparr>off = 0, len = 5, cap = 5\<rparr>
   \<and> (\<exists>v. SliceN ''abcde'' \<lparr>off = 0, len = 5, cap = 5\<rparr> (- 4) (int 2) = Inr (''abcde'', v)
          \<and> contents ''abcde'' v = ''bc'')
   \<and> normalize_to \<lparr>off = 0, len = 5, cap = 5\<rparr> (- 1) = int 4
   \<and> (1::nat) \<le> 4 \<and> 4 \<le> len \<lparr>off = 0, len = 5, cap = 5\<rparr>
   \<and> (\<exists>v. SliceTo ''abcde'' \<lparr>off = 0, len = 5, cap = 5\<rparr> (- 4) (- 1) = Inr (''abcde'', v)
          \<and> contents ''abcde'' v = ''bcd'')"
proof -
  let ?s = "\<lparr>off = 0, len = 5, cap = 5\<rparr>"
  have h1: "wf_slice ''abcde'' ?s"
    by (simp add: wf_slice_def)
  have h2: "normalize_idx ?s (- 4) = int 1" and h3: "1 \<le> len ?s" and h4: "1 + 2 \<le> len ?s"
    and h5: "normalize_to ?s (- 1) = int 4" and h6: "(1::nat) \<le> 4" and h7: "4 \<le> len ?s"
    by (simp_all add: normalize_idx_def normalize_to_def)
  have c: "contents ''abcde'' ?s = ''abcde''"
    by (simp add: contents_def)
  note inst = range_views_project [OF h1, of "- 4" 1 2 "- 4" 1 "- 1" 4]
  from inst h2 h3
  have "\<exists>v. Prefix ''abcde'' ?s (- 4) = Inr (''abcde'', v) \<and> contents ''abcde'' v = ''a''"
    unfolding c by auto
  moreover from inst h2 h3
  have "\<exists>v. Suffix ''abcde'' ?s (- 4) = Inr (''abcde'', v) \<and> contents ''abcde'' v = ''bcde''"
    unfolding c by auto
  moreover from inst h2 h4
  have "\<exists>v. SliceN ''abcde'' ?s (- 4) (int 2) = Inr (''abcde'', v) \<and> contents ''abcde'' v = ''bc''"
    unfolding c by auto
  moreover from inst h2 h5 h6 h7
  have "\<exists>v. SliceTo ''abcde'' ?s (- 4) (- 1) = Inr (''abcde'', v) \<and> contents ''abcde'' v = ''bcd''"
    unfolding c by auto
  ultimately show ?thesis
    using h1 h2 h3 h4 h5 h6 h7 by blast
qed

section \<open>RemoveN and RemoveTo\<close>

lemma store_same:
  assumes "p + length vs \<le> length a" and "\<forall>j < length vs. vs ! j = a ! (p + j)"
  shows "store a p vs = a"
proof (rule nth_equalityI)
  show "length (store a p vs) = length a"
    by simp
next
  fix j assume "j < length (store a p vs)"
  then have j: "j < length a"
    by simp
  show "store a p vs ! j = a ! j"
  proof (cases "p \<le> j \<and> j < p + length vs")
    case True
    then have "vs ! (j - p) = a ! (p + (j - p))"
      using assms(2) by auto
    then show ?thesis
      using True j by (simp add: nth_store)
  next
    case False
    then show ?thesis
      using j by (auto simp: nth_store)
  qed
qed

lemma removeN_zero:
  assumes "wf_slice a s" and "i \<le> len s"
  shows "store a (off s + i) (drop i (contents a s)) = a"
proof (rule store_same)
  have L: "length (contents a s) = len s"
    using assms(1) by (rule length_contents)
  show "off s + i + length (drop i (contents a s)) \<le> length a"
    using assms L wf_len_cap [OF assms(1)] wf_cap_array [OF assms(1)] by simp
  show "\<forall>j < length (drop i (contents a s)). drop i (contents a s) ! j = a ! (off s + i + j)"
  proof (intro allI impI)
    fix j assume "j < length (drop i (contents a s))"
    then have j: "i + j < len s"
      using L by simp
    then have "drop i (contents a s) ! j = contents a s ! (i + j)"
      using L assms(2) by simp
    also have "\<dots> = a ! (off s + (i + j))"
      using assms(1) j by (rule nth_contents)
    finally show "drop i (contents a s) ! j = a ! (off s + i + j)"
      by (simp add: add.assoc)
  qed
qed

text \<open>
  C7. Let the normalized index of \<open>idx\<close> be the position \<open>i\<close> and \<open>n\<close> a count with
  \<open>i + n \<le> len(S)\<close>. Then \<open>RemoveN(S, idx, n)\<close> returns the sequence without the \<open>n\<close> elements
  at the positions \<open>[i, i+n)\<close>: the block at \<open>[i+n, len(S))\<close> is stored from position \<open>i\<close>
  on and the length becomes \<open>len(S) - n\<close>. With \<open>n = 0\<close> the array and the header come back
  as they were. \<open>RemoveTo(S, from, to)\<close> removes the positions \<open>[f, t)\<close>, where \<open>f\<close> is the
  normalized \<open>from\<close> and \<open>t\<close> the normalized end-point \<open>to\<close>, with \<open>f \<le> t \<le> len(S)\<close>.
  The witness is \<open>RemoveN([a,b,c,d], 1, 2) = [a,d]\<close> and \<open>RemoveTo([a,b,c,d], 1, 3) = [a,d]\<close>.
\<close>

theorem RemoveN_RemoveTo_remove:
  assumes "wf_slice a s"
  shows "(normalize_idx s idx = int i \<and> i + n \<le> len s \<longrightarrow>
            RemoveN a s idx (int n)
              = Inr (store a (off s + i) (drop (i + n) (contents a s)), s\<lparr>len := len s - n\<rparr>)
            \<and> contents (store a (off s + i) (drop (i + n) (contents a s))) (s\<lparr>len := len s - n\<rparr>)
                = take i (contents a s) @ drop (i + n) (contents a s))
       \<and> (normalize_idx s idx = int i \<and> i \<le> len s \<longrightarrow> RemoveN a s idx 0 = Inr (a, s))
       \<and> (normalize_idx s from = int f \<and> normalize_to s to = int t \<and> f \<le> t \<and> t \<le> len s \<longrightarrow>
            (\<exists>a' s'. RemoveTo a s from to = Inr (a', s') \<and> wf_slice a' s'
                \<and> contents a' s' = take f (contents a s) @ drop t (contents a s)))"
proof (intro conjI impI)
  {
    assume h: "normalize_idx s idx = int i \<and> i + n \<le> len s"
    then have n: "normalize_idx s idx = int i" and le: "i + n \<le> len s"
      by simp_all
    show "RemoveN a s idx (int n)
            = Inr (store a (off s + i) (drop (i + n) (contents a s)), s\<lparr>len := len s - n\<rparr>)"
      using removeN_spec(1) [OF assms le] by (simp add: RemoveN_normalize n)
    show "contents (store a (off s + i) (drop (i + n) (contents a s))) (s\<lparr>len := len s - n\<rparr>)
            = take i (contents a s) @ drop (i + n) (contents a s)"
      using assms le by (rule removeN_spec(2))
  }
  {
    assume h: "normalize_idx s idx = int i \<and> i \<le> len s"
    then have n: "normalize_idx s idx = int i" and le: "i + 0 \<le> len s"
      by simp_all
    have "RemoveN a s idx (int 0) = Inr (store a (off s + i) (drop (i + 0) (contents a s)), s\<lparr>len := len s - 0\<rparr>)"
      using removeN_spec(1) [OF assms le] by (simp add: RemoveN_normalize n)
    then show "RemoveN a s idx 0 = Inr (a, s)"
      using removeN_zero [OF assms, of i] le by simp
  }
  {
    assume h: "normalize_idx s from = int f \<and> normalize_to s to = int t \<and> f \<le> t \<and> t \<le> len s"
    then have nf: "normalize_idx s from = int f" and nt: "normalize_to s to = int t"
      and ft: "f \<le> t" and tl: "t \<le> len s"
      by simp_all
    have le: "f + (t - f) \<le> len s"
      using ft tl by simp
    let ?a' = "store a (off s + f) (drop (f + (t - f)) (contents a s))"
    let ?s' = "s\<lparr>len := len s - (t - f)\<rparr>"
    have d: "int t - int f = int (t - f)"
      using ft by simp
    have "RemoveTo a s from to = Inr (?a', ?s')"
      unfolding RemoveTo_normalize nf nt d using assms le by (rule removeN_spec(1))
    moreover have "contents ?a' ?s' = take f (contents a s) @ drop (f + (t - f)) (contents a s)"
      using assms le by (rule removeN_spec(2))
    moreover have "wf_slice ?a' ?s'"
      using assms by (intro wf_store wf_shrink) simp_all
    ultimately show "\<exists>a' s'. RemoveTo a s from to = Inr (a', s') \<and> wf_slice a' s'
                \<and> contents a' s' = take f (contents a s) @ drop t (contents a s)"
      using ft by simp
  }
qed

theorem RemoveN_RemoveTo_remove_witness:
  "wf_slice ''abcd'' \<lparr>off = 0, len = 4, cap = 4\<rparr>
   \<and> normalize_idx \<lparr>off = 0, len = 4, cap = 4\<rparr> 1 = int 1
   \<and> 1 + 2 \<le> len \<lparr>off = 0, len = 4, cap = 4\<rparr>
   \<and> (\<exists>a' s'. RemoveN ''abcd'' \<lparr>off = 0, len = 4, cap = 4\<rparr> 1 (int 2) = Inr (a', s')
          \<and> contents a' s' = ''ad'')
   \<and> 1 \<le> len \<lparr>off = 0, len = 4, cap = 4\<rparr>
   \<and> RemoveN ''abcd'' \<lparr>off = 0, len = 4, cap = 4\<rparr> 1 0 = Inr (''abcd'', \<lparr>off = 0, len = 4, cap = 4\<rparr>)
   \<and> normalize_to \<lparr>off = 0, len = 4, cap = 4\<rparr> 3 = int 3
   \<and> (1::nat) \<le> 3 \<and> 3 \<le> len \<lparr>off = 0, len = 4, cap = 4\<rparr>
   \<and> (\<exists>a' s'. RemoveTo ''abcd'' \<lparr>off = 0, len = 4, cap = 4\<rparr> 1 3 = Inr (a', s')
          \<and> contents a' s' = ''ad'')"
proof -
  let ?s = "\<lparr>off = 0, len = 4, cap = 4\<rparr>"
  have h1: "wf_slice ''abcd'' ?s"
    by (simp add: wf_slice_def)
  have h2: "normalize_idx ?s 1 = int 1" and h3: "1 + 2 \<le> len ?s" and h4: "1 \<le> len ?s"
    and h5: "normalize_to ?s 3 = int 3" and h6: "(1::nat) \<le> 3" and h7: "3 \<le> len ?s"
    by (simp_all add: normalize_idx_def normalize_to_def)
  have c: "contents ''abcd'' ?s = ''abcd''"
    by (simp add: contents_def)
  note inst = RemoveN_RemoveTo_remove [OF h1, of 1 1 2 1 1 3 3]
  from inst h2 h3
  have "\<exists>a' s'. RemoveN ''abcd'' ?s 1 (int 2) = Inr (a', s') \<and> contents a' s' = ''ad''"
    unfolding c by auto
  moreover from inst h2 h4
  have "RemoveN ''abcd'' ?s 1 0 = Inr (''abcd'', ?s)"
    by blast
  moreover from inst h2 h5 h6 h7
  have "\<exists>a' s'. RemoveTo ''abcd'' ?s 1 3 = Inr (a', s') \<and> contents a' s' = ''ad''"
    unfolding c by auto
  ultimately show ?thesis
    using h1 h2 h3 h4 h5 h6 h7 by blast
qed

end
